theory Spec2Isabelle
  imports Main "HOL-Library.Sublist"
begin

section \<open>Syntax trees\<close>

text \<open>
  The rule reads an ESTree-shaped syntax tree handed over by the host linter. A node has a
  \<^verbatim>\<open>type\<close> tag, tag-specific fields and a \<^verbatim>\<open>parent\<close> back-reference. Each node
  type that the rule or its helpers test for is a constructor of its own; every other node type
  (\<^verbatim>\<open>IfStatement\<close>, \<^verbatim>\<open>WhileStatement\<close>, \<^verbatim>\<open>VariableDeclaration\<close>,
  \<^verbatim>\<open>ArrayExpression\<close>, ...) is \<open>Other\<close> with its tag and its children in document
  order. The identifiers of an import specifier are kept as their names: the imported name and
  the local name of a named specifier, the local name of a default or namespace specifier.
\<close>

datatype literal_value = LString string | LNumber int | LBool bool | LNull

datatype node =
    Program "node list"
  | ImportDeclaration node "node list"
  | ImportSpecifier string string
  | ImportDefaultSpecifier string
  | ImportNamespaceSpecifier string
  | Identifier string
  | Literal literal_value
  | CallExpression node "node list"
  | NewExpression node "node list"
  | MemberExpression node node
  | ArrowFunctionExpression "node list" node
  | FunctionDeclaration "node list"
  | FunctionExpression "node list"
  | BlockStatement "node list"
  | ReturnStatement "node option"
  | ExpressionStatement node
  | Other string "node list"

text \<open>
  The fields that hold child nodes, in document order: the specifiers and then the source of an
  import, the callee and then the arguments of a call or constructor invocation, the object and
  then the property of a member access, the parameters and then the body of an arrow function.
\<close>

fun children :: "node \<Rightarrow> node list" where
  "children (Program body) = body"
| "children (ImportDeclaration source specifiers) = specifiers @ [source]"
| "children (ImportSpecifier imported local) = []"
| "children (ImportDefaultSpecifier local) = []"
| "children (ImportNamespaceSpecifier local) = []"
| "children (Identifier name) = []"
| "children (Literal v) = []"
| "children (CallExpression callee arguments) = callee # arguments"
| "children (NewExpression callee arguments) = callee # arguments"
| "children (MemberExpression object property) = [object, property]"
| "children (ArrowFunctionExpression params body) = params @ [body]"
| "children (FunctionDeclaration parts) = parts"
| "children (FunctionExpression parts) = parts"
| "children (BlockStatement body) = body"
| "children (ReturnStatement None) = []"
| "children (ReturnStatement (Some argument)) = [argument]"
| "children (ExpressionStatement expression) = [expression]"
| "children (Other tag parts) = parts"

text \<open>
  A node of a tree is referred to by its position: the child indices from the node up to the
  root, innermost first. The tail of a position is the position of the parent, the root has the
  empty position and no parent, and two references are the same node (\<^verbatim>\<open>===\<close>) exactly when
  the positions are equal.
\<close>

type_synonym path = "nat list"

fun node_at :: "node \<Rightarrow> path \<Rightarrow> node option" where
  "node_at root [] = Some root"
| "node_at root (i # up) =
     (case node_at root up of
        None \<Rightarrow> None
      | Some par \<Rightarrow> if i < length (children par) then Some (children par ! i) else None)"

section \<open>utils/ast-helpers.ts\<close>

definition HANDLED_METHODS :: "string list" where
  "HANDLED_METHODS = [''match'', ''unwrapOr'', ''_unsafeUnwrap'']"

definition RESULT_METHODS :: "string list" where
  "RESULT_METHODS =
     [''map'', ''mapErr'', ''andThen'', ''orElse'', ''asyncAndThen'', ''asyncMap'', ''isOk'', ''isErr'']"

text \<open>\<^verbatim>\<open>isResultConstructorCall\<close>: a constructor invocation of \<^verbatim>\<open>Ok\<close> or \<^verbatim>\<open>Err\<close>, or a
  call of one of the four factory names.\<close>

fun isResultConstructorCall :: "node \<Rightarrow> bool" where
  "isResultConstructorCall (NewExpression callee arguments) =
     (case callee of Identifier name \<Rightarrow> name = ''Ok'' \<or> name = ''Err'' | _ \<Rightarrow> False)"
| "isResultConstructorCall (CallExpression callee arguments) =
     (case callee of
        Identifier name \<Rightarrow> name \<in> set [''ok'', ''err'', ''okAsync'', ''errAsync'']
      | _ \<Rightarrow> False)"
| "isResultConstructorCall _ = False"

text \<open>\<^verbatim>\<open>getMethodName\<close>: the property name of a member access whose property is an identifier.\<close>

fun getMethodName :: "node \<Rightarrow> string option" where
  "getMethodName (MemberExpression object property) =
     (case property of Identifier name \<Rightarrow> Some name | _ \<Rightarrow> None)"
| "getMethodName _ = None"

text \<open>
  The inner loop of \<^verbatim>\<open>isInReturnContext\<close>: from \<^verbatim>\<open>checkNode\<close> upwards while it is not
  \<^verbatim>\<open>bodyNode\<close>, answering true as soon as the parent of \<^verbatim>\<open>checkNode\<close> is \<^verbatim>\<open>bodyNode\<close>.
  The result is false when the loop ends without returning.
\<close>

fun reaches_body :: "path \<Rightarrow> path \<Rightarrow> bool" where
  "reaches_body bodyNode [] = False"
| "reaches_body bodyNode (i # up) =
     (if i # up = bodyNode then False
      else if up = bodyNode then True
      else reaches_body bodyNode up)"

text \<open>
  The outer loop of \<^verbatim>\<open>isInReturnContext\<close> at \<^verbatim>\<open>current\<close>: a return statement answers
  true; an arrow function answers true when the node is its body or lies below its body;
  a function declaration, function expression or block statement ends the walk; any other
  node hands over to its parent. A missing node (\<^verbatim>\<open>null\<close>) ends the walk.
\<close>

fun return_walk :: "node \<Rightarrow> path \<Rightarrow> path \<Rightarrow> bool" where
  "return_walk root nd current =
     (case node_at root current of
        None \<Rightarrow> False
      | Some c \<Rightarrow>
          (case c of
             ReturnStatement argument \<Rightarrow> True
           | ArrowFunctionExpression params body \<Rightarrow>
               (let bodyNode = length params # current in
                if reaches_body bodyNode nd \<or> bodyNode = nd then True
                else (case current of [] \<Rightarrow> False | i # up \<Rightarrow> return_walk root nd up))
           | FunctionDeclaration parts \<Rightarrow> False
           | FunctionExpression parts \<Rightarrow> False
           | BlockStatement body \<Rightarrow> False
           | _ \<Rightarrow> (case current of [] \<Rightarrow> False | i # up \<Rightarrow> return_walk root nd up)))"

declare return_walk.simps [simp del]

definition isInReturnContext :: "node \<Rightarrow> path \<Rightarrow> bool" where
  "isInReturnContext root nd = (case nd of [] \<Rightarrow> False | i # up \<Rightarrow> return_walk root nd up)"

text \<open>
  \<^verbatim>\<open>ImportTracker\<close>: the set of local names imported from \<^verbatim>\<open>"neverthrow"\<close>. Each of
  the three specifier forms adds its local name; a specifier of any other form adds nothing.
\<close>

fun track_specifier :: "node \<Rightarrow> string set \<Rightarrow> string set" where
  "track_specifier (ImportSpecifier imported local) imports = insert local imports"
| "track_specifier (ImportDefaultSpecifier local) imports = insert local imports"
| "track_specifier (ImportNamespaceSpecifier local) imports = insert local imports"
| "track_specifier _ imports = imports"

fun trackImport :: "node \<Rightarrow> string set \<Rightarrow> string set" where
  "trackImport (ImportDeclaration source specifiers) imports =
     (if source = Literal (LString ''neverthrow'')
      then fold track_specifier specifiers imports
      else imports)"
| "trackImport _ imports = imports"

definition isNeverthrowImport :: "string set \<Rightarrow> string \<Rightarrow> bool" where
  "isNeverthrowImport imports name = (name \<in> imports)"

definition clear :: "string set \<Rightarrow> string set" where
  "clear imports = {}"

section \<open>rules/must-use-result.ts\<close>

text \<open>
  \<^verbatim>\<open>isImmediatelyHandled\<close>: upwards from the parent of the node. A member access whose
  property is a handling method and which is the callee of its parent call answers true; any
  other member access and any call hand over to the parent; every other node ends the walk.
\<close>

definition is_called :: "node \<Rightarrow> path \<Rightarrow> bool" where
  "is_called root current =
     (case current of
        [] \<Rightarrow> False
      | i # callParent \<Rightarrow>
          (case node_at root callParent of
             Some (CallExpression callee arguments) \<Rightarrow> i = 0
           | _ \<Rightarrow> False))"

fun handled_walk :: "node \<Rightarrow> path \<Rightarrow> bool" where
  "handled_walk root current =
     (case node_at root current of
        None \<Rightarrow> False
      | Some c \<Rightarrow>
          (case c of
             MemberExpression object property \<Rightarrow>
               if (case getMethodName c of
                     Some methodName \<Rightarrow> methodName \<noteq> [] \<and> methodName \<in> set HANDLED_METHODS
                   | None \<Rightarrow> False) \<and> is_called root current
               then True
               else (case current of [] \<Rightarrow> False | i # up \<Rightarrow> handled_walk root up)
           | CallExpression callee arguments \<Rightarrow>
               (case current of [] \<Rightarrow> False | i # up \<Rightarrow> handled_walk root up)
           | _ \<Rightarrow> False))"

declare handled_walk.simps [simp del]

definition isImmediatelyHandled :: "node \<Rightarrow> path \<Rightarrow> bool" where
  "isImmediatelyHandled root nd = (case nd of [] \<Rightarrow> False | i # up \<Rightarrow> handled_walk root up)"

text \<open>
  \<^verbatim>\<open>toLowerCase\<close> and \<^verbatim>\<open>includes\<close> on identifier names. Only the letters A to Z are
  folded: no character outside them lowercases to a letter of \<^verbatim>\<open>result\<close>, so the test
  \<^verbatim>\<open>name.toLowerCase().includes("result")\<close> is not affected by the other characters.
\<close>

definition toLowerCase_char :: "char \<Rightarrow> char" where
  "toLowerCase_char c =
     (let n = (of_char c :: nat) in if 65 \<le> n \<and> n \<le> 90 then char_of (n + 32) else c)"

definition toLowerCase :: "string \<Rightarrow> string" where
  "toLowerCase s = map toLowerCase_char s"

fun includes_str :: "string \<Rightarrow> string \<Rightarrow> bool" where
  "includes_str [] sub = (sub = [])"
| "includes_str (c # cs) sub = (take (length sub) (c # cs) = sub \<or> includes_str cs sub)"

record diagnostic =
  anchor :: path
  message :: string

record linter_state =
  neverthrowImports :: "string set"
  reports :: "diagnostic list"

definition report :: "path \<Rightarrow> string \<Rightarrow> linter_state \<Rightarrow> linter_state" where
  "report nd msg s = s\<lparr>reports := reports s @ [\<lparr>anchor = nd, message = msg\<rparr>]\<rparr>"

text \<open>The \<^verbatim>\<open>ImportDeclaration\<close> visitor.\<close>

definition ImportDeclaration_visitor :: "node \<Rightarrow> linter_state \<Rightarrow> linter_state" where
  "ImportDeclaration_visitor n s = s\<lparr>neverthrowImports := trackImport n (neverthrowImports s)\<rparr>"

text \<open>
  The \<^verbatim>\<open>CallExpression\<close> visitor: the two early returns, then the factory check and the
  name heuristic, each of which reports on its own.
\<close>

definition factory_check :: "path \<Rightarrow> node \<Rightarrow> linter_state \<Rightarrow> linter_state" where
  "factory_check nd callee s =
     (case callee of
        Identifier name \<Rightarrow>
          if name \<in> set [''ok'', ''err'', ''okAsync'', ''errAsync'']
             \<and> isNeverthrowImport (neverthrowImports s) name
          then report nd ''Result must be handled with either match, unwrapOr, or _unsafeUnwrap'' s
          else s
      | _ \<Rightarrow> s)"

definition heuristic_check :: "path \<Rightarrow> node \<Rightarrow> linter_state \<Rightarrow> linter_state" where
  "heuristic_check nd callee s =
     (case callee of
        Identifier name \<Rightarrow>
          if includes_str (toLowerCase name) ''result''
             \<and> name \<noteq> ''isResultConstructorCall''
             \<and> name \<noteq> ''isResultMethodCall''
             \<and> name \<noteq> ''isResultIdentifier''
             \<and> name \<noteq> ''hasResultMethodChain''
             \<and> name \<noteq> ''checkResult''
             \<and> name \<noteq> ''hasResult''
             \<and> name \<noteq> ''processResult''
          then report nd ''Result must be handled with either match, unwrapOr, or _unsafeUnwrap'' s
          else s
      | _ \<Rightarrow> s)"

definition CallExpression_visitor :: "node \<Rightarrow> path \<Rightarrow> node \<Rightarrow> linter_state \<Rightarrow> linter_state" where
  "CallExpression_visitor root nd callee s =
     (if isInReturnContext root nd then s
      else if isImmediatelyHandled root nd then s
      else heuristic_check nd callee (factory_check nd callee s))"

text \<open>The \<^verbatim>\<open>NewExpression\<close> visitor.\<close>

definition NewExpression_visitor :: "node \<Rightarrow> path \<Rightarrow> node \<Rightarrow> linter_state \<Rightarrow> linter_state" where
  "NewExpression_visitor root nd n s =
     (if isInReturnContext root nd then s
      else if isImmediatelyHandled root nd then s
      else if isResultConstructorCall n
      then report nd ''Result must be handled with either match, unwrapOr, or _unsafeUnwrap'' s
      else s)"

text \<open>
  The \<^verbatim>\<open>ExpressionStatement\<close> visitor: it returns early in a return context and for a
  factory call of an imported name, and reports nothing on any branch.
\<close>

definition ExpressionStatement_visitor :: "node \<Rightarrow> path \<Rightarrow> node \<Rightarrow> linter_state \<Rightarrow> linter_state" where
  "ExpressionStatement_visitor root nd expression s =
     (if isInReturnContext root (0 # nd) then s
      else (case expression of
              CallExpression (Identifier name) arguments \<Rightarrow>
                if name \<in> set [''ok'', ''err'', ''okAsync'', ''errAsync'']
                   \<and> isNeverthrowImport (neverthrowImports s) name
                then s
                else s
            | _ \<Rightarrow> s))"

text \<open>The \<^verbatim>\<open>Program\<close> visitor.\<close>

definition Program_visitor :: "linter_state \<Rightarrow> linter_state" where
  "Program_visitor s = s\<lparr>neverthrowImports := clear (neverthrowImports s)\<rparr>"

text \<open>The visitor object returned by \<^verbatim>\<open>create\<close>: the visitor that is keyed by the type of
  the node at the given position, if there is one.\<close>

definition visit :: "node \<Rightarrow> path \<Rightarrow> linter_state \<Rightarrow> linter_state" where
  "visit root nd s =
     (case node_at root nd of
        None \<Rightarrow> s
      | Some n \<Rightarrow>
          (case n of
             ImportDeclaration source specifiers \<Rightarrow> ImportDeclaration_visitor n s
           | CallExpression callee arguments \<Rightarrow> CallExpression_visitor root nd callee s
           | NewExpression callee arguments \<Rightarrow> NewExpression_visitor root nd n s
           | ExpressionStatement expression \<Rightarrow> ExpressionStatement_visitor root nd expression s
           | Program body \<Rightarrow> Program_visitor s
           | _ \<Rightarrow> s))"

section \<open>Running the rule on a compilation unit\<close>

text \<open>
  Modelled from the spec: the traversal that calls the visitors belongs to the host linter and is
  not part of the repository. It is a single forward traversal in document order: every node is
  entered once, before its children, and the children are entered in order.
  \<open>preorder_from n p\<close> lists the positions of the nodes of the subtree \<open>n\<close> sitting at \<open>p\<close>.
\<close>

function preorder_from :: "node \<Rightarrow> path \<Rightarrow> path list" where
  "preorder_from n p =
     p # concat (map (\<lambda>i. preorder_from (children n ! i) (i # p)) [0..<length (children n)])"
  by pat_completeness auto
termination
proof (relation "measure (\<lambda>(n, p). size n)")
  show "wf (measure (\<lambda>(n, p). size n))"
    by simp
next
  fix n :: node and p :: path and i :: nat
  assume "i \<in> set [0..<length (children n)]"
  then have mem: "children n ! i \<in> set (children n)"
    by simp
  have le: "size c \<le> size_list size cs" if "c \<in> set cs" for c :: node and cs
    using that by (induction cs) auto
  have "size c < size n" if "c \<in> set (children n)" for c
  proof (cases n)
    case (ReturnStatement argument)
    with that show ?thesis by (cases argument) auto
  qed (use that in \<open>auto simp: less_Suc_eq_le dest: le intro: le_SucI trans_le_add1\<close>)
  with mem show "((children n ! i, i # p), (n, p)) \<in> measure (\<lambda>(n, p). size n)"
    by simp
qed

declare preorder_from.simps [simp del]

definition preorder :: "node \<Rightarrow> path list" where
  "preorder root = preorder_from root []"

definition traverse :: "node \<Rightarrow> linter_state \<Rightarrow> linter_state" where
  "traverse root s = fold (visit root) (preorder root) s"

text \<open>
  One compilation unit, linted with the tracker holding \<open>imports\<close> when the traversal starts;
  \<^verbatim>\<open>create\<close> starts with the empty tracker.
\<close>

definition lint_from :: "string set \<Rightarrow> node \<Rightarrow> diagnostic list" where
  "lint_from imports root = reports (traverse root \<lparr>neverthrowImports = imports, reports = []\<rparr>)"

definition lint :: "node \<Rightarrow> diagnostic list" where
  "lint root = lint_from {} root"

text \<open>Several compilation units linted one after the other by one instance of the rule: the
  tracker object is the same for all of them.\<close>

fun lint_units :: "string set \<Rightarrow> node list \<Rightarrow> diagnostic list list" where
  "lint_units imports [] = []"
| "lint_units imports (u # us) =
     (let s = traverse u \<lparr>neverthrowImports = imports, reports = []\<rparr>
      in reports s # lint_units (neverthrowImports s) us)"

text \<open>
  An evaluation-friendly reading of \<open>preorder_from\<close>: the children one after the other, each
  with its index.
\<close>

fun kids_from :: "node list \<Rightarrow> nat \<Rightarrow> path \<Rightarrow> path list" where
  "kids_from [] i p = []"
| "kids_from (c # cs) i p = preorder_from c (i # p) @ kids_from cs (Suc i) p"

section \<open>Notions used in the statements\<close>

text \<open>The one message of the rule, and the diagnostic it gives for a node.\<close>

definition fixed_message :: string where
  "fixed_message = ''Result must be handled with either match, unwrapOr, or _unsafeUnwrap''"

definition result_diagnostic :: "path \<Rightarrow> diagnostic" where
  "result_diagnostic nd = \<lparr>anchor = nd, message = fixed_message\<rparr>"

text \<open>What entering one node adds to the reports and does to the tracker.\<close>

definition emitted :: "node \<Rightarrow> path \<Rightarrow> string set \<Rightarrow> diagnostic list" where
  "emitted root nd imps = reports (visit root nd \<lparr>neverthrowImports = imps, reports = []\<rparr>)"

definition tracked :: "node \<Rightarrow> path \<Rightarrow> string set \<Rightarrow> string set" where
  "tracked root nd imps =
     neverthrowImports (visit root nd \<lparr>neverthrowImports = imps, reports = []\<rparr>)"

text \<open>The diagnostics of a unit that are anchored at a given node, and the tracker as it is
  when the traversal enters that node (the Import Registry at that moment).\<close>

definition diagnostics_at :: "node \<Rightarrow> path \<Rightarrow> diagnostic list" where
  "diagnostics_at root nd = filter (\<lambda>d. anchor d = nd) (lint root)"

definition imports_before_from :: "string set \<Rightarrow> node \<Rightarrow> path \<Rightarrow> string set" where
  "imports_before_from imps root nd =
     neverthrowImports
       (fold (visit root) (takeWhile (\<lambda>q. q \<noteq> nd) (preorder root))
          \<lparr>neverthrowImports = imps, reports = []\<rparr>)"

definition imports_before :: "node \<Rightarrow> path \<Rightarrow> string set" where
  "imports_before root nd = imports_before_from {} root nd"

text \<open>
  The classification of the specification: the four factory names, the exclusion list of the
  name heuristic, and a Result-producing call: a constructor invocation of \<^verbatim>\<open>Ok\<close> or
  \<^verbatim>\<open>Err\<close>, a call of a factory name bound in the registry, or a call whose name passes
  the heuristic.
\<close>

definition factory_names :: "string list" where
  "factory_names = [''ok'', ''err'', ''okAsync'', ''errAsync'']"

definition exclusion_list :: "string list" where
  "exclusion_list =
     [''isResultConstructorCall'', ''isResultMethodCall'', ''isResultIdentifier'',
      ''hasResultMethodChain'', ''checkResult'', ''hasResult'', ''processResult'']"

definition heuristic_name :: "string \<Rightarrow> bool" where
  "heuristic_name name = (includes_str (toLowerCase name) ''result'' \<and> name \<notin> set exclusion_list)"

definition producing_call :: "string set \<Rightarrow> node \<Rightarrow> bool" where
  "producing_call registry n =
     (case n of
        NewExpression callee arguments \<Rightarrow>
          (case callee of Identifier name \<Rightarrow> name = ''Ok'' \<or> name = ''Err'' | _ \<Rightarrow> False)
      | CallExpression callee arguments \<Rightarrow>
          (case callee of
             Identifier name \<Rightarrow>
               name \<in> set factory_names \<and> name \<in> registry \<or> heuristic_name name
           | _ \<Rightarrow> False)
      | _ \<Rightarrow> False)"

text \<open>
  Delegation, in the words of the specification. The boundaries are function declarations,
  function expressions and block statements. \<open>direct_path root nd\<close> lists the ancestors of
  \<open>nd\<close> from its parent upwards, up to and including the nearest boundary (or the root when
  there is none): the ancestors that are reached without crossing a boundary. An ancestor
  delegates \<open>nd\<close> when it is a return statement, or an arrow function whose body is \<open>nd\<close> or
  contains \<open>nd\<close>. A node is delegated when an ancestor on its direct path delegates it.
\<close>

fun is_boundary :: "node \<Rightarrow> bool" where
  "is_boundary (FunctionDeclaration parts) = True"
| "is_boundary (FunctionExpression parts) = True"
| "is_boundary (BlockStatement body) = True"
| "is_boundary n = False"

fun climb :: "node \<Rightarrow> path \<Rightarrow> path list" where
  "climb root [] = [[]]"
| "climb root (i # up) =
     (case node_at root (i # up) of
        None \<Rightarrow> []
      | Some c \<Rightarrow> (i # up) # (if is_boundary c then [] else climb root up))"

definition direct_path :: "node \<Rightarrow> path \<Rightarrow> path list" where
  "direct_path root nd = (case nd of [] \<Rightarrow> [] | i # up \<Rightarrow> climb root up)"

definition delegating :: "node \<Rightarrow> path \<Rightarrow> path \<Rightarrow> bool" where
  "delegating root nd a =
     (case node_at root a of
        Some (ReturnStatement argument) \<Rightarrow> True
      | Some (ArrowFunctionExpression params body) \<Rightarrow> suffix (length params # a) nd
      | _ \<Rightarrow> False)"

definition delegated :: "node \<Rightarrow> path \<Rightarrow> bool" where
  "delegated root nd = (\<exists>a \<in> set (direct_path root nd). delegating root nd a)"

text \<open>
  A bare statement: the node is the expression of an expression statement, and the statement
  is in a statement position, that is, not itself below a return statement or in an arrow body
  without a boundary in between (as is every statement that sits directly in a block or
  directly in the program).
\<close>

definition bare_statement :: "node \<Rightarrow> path \<Rightarrow> bool" where
  "bare_statement root nd =
     (case nd of
        [] \<Rightarrow> False
      | i # st \<Rightarrow>
          (case node_at root st of
             Some (ExpressionStatement expression) \<Rightarrow> \<not> delegated root st
           | _ \<Rightarrow> False))"

text \<open>
  Method chains. \<open>handled_chain root nd\<close>: the node at \<open>nd\<close> is the object of a member access
  of a handling method that is the callee of a call, directly or after any number of steps, each
  a member access of a transforming method that is the callee of a call whose result is the
  object of the next step.
\<close>

inductive handled_chain :: "node \<Rightarrow> path \<Rightarrow> bool" for root :: node where
  direct:
    "node_at root (0 # c) = Some (MemberExpression object (Identifier m)) \<Longrightarrow>
     m \<in> set HANDLED_METHODS \<Longrightarrow>
     node_at root c = Some (CallExpression callee arguments) \<Longrightarrow>
     handled_chain root (0 # 0 # c)"
| step:
    "node_at root (0 # c) = Some (MemberExpression object (Identifier m)) \<Longrightarrow>
     m \<in> set RESULT_METHODS \<Longrightarrow>
     node_at root c = Some (CallExpression callee arguments) \<Longrightarrow>
     handled_chain root c \<Longrightarrow>
     handled_chain root (0 # 0 # c)"

text \<open>
  \<open>unhandled_chain root nd lst\<close>: the node at \<open>nd\<close> is followed by one or more method steps,
  none of them a handling method, and \<open>lst\<close> is the call of the last step.
\<close>

inductive unhandled_chain :: "node \<Rightarrow> path \<Rightarrow> path \<Rightarrow> bool" for root :: node where
  single:
    "node_at root (0 # lst) = Some (MemberExpression object (Identifier m)) \<Longrightarrow>
     m \<notin> set HANDLED_METHODS \<Longrightarrow>
     node_at root lst = Some (CallExpression callee arguments) \<Longrightarrow>
     unhandled_chain root (0 # 0 # lst) lst"
| more:
    "unhandled_chain root nd (0 # 0 # lst) \<Longrightarrow>
     node_at root (0 # lst) = Some (MemberExpression object (Identifier m)) \<Longrightarrow>
     m \<notin> set HANDLED_METHODS \<Longrightarrow>
     node_at root lst = Some (CallExpression callee arguments) \<Longrightarrow>
     unhandled_chain root nd lst"

section \<open>Example units\<close>

text \<open>\<^verbatim>\<open>import { ok, err } from "neverthrow";\<close>, a call \<^verbatim>\<open>name(1)\<close> and a method call
  \<^verbatim>\<open>object.m(f)\<close>.\<close>

definition neverthrow_import :: node where
  "neverthrow_import =
     ImportDeclaration (Literal (LString ''neverthrow''))
       [ImportSpecifier ''ok'' ''ok'', ImportSpecifier ''err'' ''err'']"

definition call_of :: "string \<Rightarrow> node" where
  "call_of name = CallExpression (Identifier name) [Literal (LNumber 1)]"

definition method_call :: "node \<Rightarrow> string \<Rightarrow> node" where
  "method_call object m = CallExpression (MemberExpression object (Identifier m)) [Identifier ''f'']"

text \<open>
  \<^verbatim>\<open>import { ok, err } from "neverthrow"; ok(1); okAsync(1); new Ok(1); getResult(1); checkResult(1);\<close>
\<close>

definition unit_statements :: node where
  "unit_statements =
     Program
       [neverthrow_import,
        ExpressionStatement (call_of ''ok''),
        ExpressionStatement (call_of ''okAsync''),
        ExpressionStatement (NewExpression (Identifier ''Ok'') [Literal (LNumber 1)]),
        ExpressionStatement (call_of ''getResult''),
        ExpressionStatement (call_of ''checkResult'')]"

text \<open>
  \<^verbatim>\<open>import { ok, err } from "neverthrow"; ok(1).map(f).unwrapOr(f); ok(1).map(f).isOk(f);
  getResult(1).unwrapOr(f);\<close>
\<close>

definition unit_chains :: node where
  "unit_chains =
     Program
       [neverthrow_import,
        ExpressionStatement (method_call (method_call (call_of ''ok'') ''map'') ''unwrapOr''),
        ExpressionStatement (method_call (method_call (call_of ''ok'') ''map'') ''isOk''),
        ExpressionStatement (method_call (call_of ''getResult'') ''unwrapOr'')]"

text \<open>
  \<^verbatim>\<open>import { ok, err } from "neverthrow"; function f() { return wrap(ok(1)); }
  const g = (x) => ok(1).map(f); const h = () => getResult(1);\<close>
\<close>

definition unit_delegated :: node where
  "unit_delegated =
     Program
       [neverthrow_import,
        FunctionDeclaration
          [Identifier ''f'',
           BlockStatement
             [ReturnStatement (Some (CallExpression (Identifier ''wrap'') [call_of ''ok'']))]],
        Other ''VariableDeclaration''
          [Other ''VariableDeclarator''
             [Identifier ''g'',
              ArrowFunctionExpression [Identifier ''x''] (method_call (call_of ''ok'') ''map'')]],
        Other ''VariableDeclaration''
          [Other ''VariableDeclarator''
             [Identifier ''h'', ArrowFunctionExpression [] (call_of ''getResult'')]]]"

text \<open>\<^verbatim>\<open>ok(1);\<close> with no import.\<close>

definition unit_unimported :: node where
  "unit_unimported = Program [ExpressionStatement (call_of ''ok'')]"

text \<open>\<^verbatim>\<open>import { ok, err } from "neverthrow"; function f() { return ok(1).isOk(f); }\<close>\<close>

definition unit_returned_chain :: node where
  "unit_returned_chain =
     Program
       [neverthrow_import,
        FunctionDeclaration
          [Identifier ''f'',
           BlockStatement [ReturnStatement (Some (method_call (call_of ''ok'') ''isOk''))]]]"

text \<open>
  \<^verbatim>\<open>import { ok, err } from "neverthrow";
  function f() { if (c) { ok(1); } if (c) { ok(1).unwrapOr(f); } return ok(1); }\<close>
\<close>

definition unit_conditional :: node where
  "unit_conditional =
     Program
       [neverthrow_import,
        FunctionDeclaration
          [Identifier ''f'',
           BlockStatement
             [Other ''IfStatement''
                [Identifier ''c'', BlockStatement [ExpressionStatement (call_of ''ok'')]],
              Other ''IfStatement''
                [Identifier ''c'',
                 BlockStatement [ExpressionStatement (method_call (call_of ''ok'') ''unwrapOr'')]],
              ReturnStatement (Some (call_of ''ok''))]]]"

section \<open>Positions and the traversal\<close>

lemma node_at_append:
  "node_at root (r @ p) = (case node_at root p of None \<Rightarrow> None | Some m \<Rightarrow> node_at m r)"
  by (induction r) (auto split: option.splits)

lemma node_at_snoc:
  "node_at n (r @ [i]) = (if i < length (children n) then node_at (children n ! i) r else None)"
  by (simp add: node_at_append)

lemma preorder_from_mem:
  "q \<in> set (preorder_from n p) \<longleftrightarrow> (\<exists>r. q = r @ p \<and> node_at n r \<noteq> None)"
proof (induction n p arbitrary: q rule: preorder_from.induct)
  case (1 n p)
  have "q \<in> set (preorder_from n p) \<longleftrightarrow>
        q = p \<or> (\<exists>i < length (children n). q \<in> set (preorder_from (children n ! i) (i # p)))"
    by (subst preorder_from.simps) auto
  also have "\<dots> \<longleftrightarrow> q = p \<or> (\<exists>i < length (children n). \<exists>r. q = r @ i # p \<and> node_at (children n ! i) r \<noteq> None)"
    using "1.IH" by (simp cong: conj_cong)
  also have "\<dots> \<longleftrightarrow> (\<exists>r. q = r @ p \<and> node_at n r \<noteq> None)"
  proof
    assume "q = p \<or> (\<exists>i < length (children n). \<exists>r. q = r @ i # p \<and> node_at (children n ! i) r \<noteq> None)"
    then show "\<exists>r. q = r @ p \<and> node_at n r \<noteq> None"
    proof
      assume "q = p"
      then have "q = [] @ p \<and> node_at n [] \<noteq> None" by simp
      then show ?thesis by blast
    next
      assume "\<exists>i < length (children n). \<exists>r. q = r @ i # p \<and> node_at (children n ! i) r \<noteq> None"
      then obtain i r where "i < length (children n)" "q = r @ i # p" "node_at (children n ! i) r \<noteq> None"
        by blast
      then have "q = (r @ [i]) @ p \<and> node_at n (r @ [i]) \<noteq> None"
        by (simp add: node_at_snoc)
      then show ?thesis by blast
    qed
  next
    assume "\<exists>r. q = r @ p \<and> node_at n r \<noteq> None"
    then obtain r where r: "q = r @ p" "node_at n r \<noteq> None" by blast
    show "q = p \<or> (\<exists>i < length (children n). \<exists>r. q = r @ i # p \<and> node_at (children n ! i) r \<noteq> None)"
    proof (cases r rule: rev_cases)
      case Nil
      with r show ?thesis by simp
    next
      case (snoc r' i)
      with r have "i < length (children n) \<and> q = r' @ i # p \<and> node_at (children n ! i) r' \<noteq> None"
        by (auto simp: node_at_snoc split: if_splits)
      then show ?thesis by blast
    qed
  qed
  finally show ?case .
qed

lemma preorder_mem: "q \<in> set (preorder root) \<longleftrightarrow> node_at root q \<noteq> None"
  by (simp add: preorder_def preorder_from_mem)

lemma distinct_concat_map:
  "distinct xs \<Longrightarrow> (\<And>x. x \<in> set xs \<Longrightarrow> distinct (f x)) \<Longrightarrow>
   (\<And>x y. x \<in> set xs \<Longrightarrow> y \<in> set xs \<Longrightarrow> x \<noteq> y \<Longrightarrow> set (f x) \<inter> set (f y) = {}) \<Longrightarrow>
   distinct (concat (map f xs))"
  by (induction xs) auto

lemma preorder_from_distinct: "distinct (preorder_from n p)"
proof (induction n p rule: preorder_from.induct)
  case (1 n p)
  let ?f = "\<lambda>i. preorder_from (children n ! i) (i # p)"
  have notin: "p \<notin> set (concat (map ?f [0..<length (children n)]))"
    by (auto simp: preorder_from_mem)
  have disj: "set (?f i) \<inter> set (?f j) = {}" if "i \<noteq> j" for i j
  proof -
    have False if "r @ i # p = r' @ j # p" for r r'
    proof -
      from that have "(r @ [i]) @ p = (r' @ [j]) @ p" by simp
      then have "r @ [i] = r' @ [j]" by (simp only: append_same_eq)
      with \<open>i \<noteq> j\<close> show False by simp
    qed
    then show ?thesis by (auto simp: preorder_from_mem)
  qed
  have "distinct (concat (map ?f [0..<length (children n)]))"
    by (rule distinct_concat_map) (use "1.IH" disj in auto)
  with notin show ?case
    by (subst preorder_from.simps) simp
qed

lemma preorder_distinct: "distinct (preorder root)"
  by (simp add: preorder_def preorder_from_distinct)


lemmas visitor_defs =
  ImportDeclaration_visitor_def CallExpression_visitor_def NewExpression_visitor_def
  ExpressionStatement_visitor_def Program_visitor_def factory_check_def heuristic_check_def
  report_def

lemma visit_split:
  "visit root nd s =
     \<lparr>neverthrowImports = tracked root nd (neverthrowImports s),
      reports = reports s @ emitted root nd (neverthrowImports s)\<rparr>"
  by (cases s) (simp add: visit_def emitted_def tracked_def visitor_defs
        split: option.split node.split)

lemma reports_visit: "reports (visit root nd s) = reports s @ emitted root nd (neverthrowImports s)"
  by (subst visit_split) simp

lemma imports_visit: "neverthrowImports (visit root nd s) = tracked root nd (neverthrowImports s)"
  by (subst visit_split) simp

lemma factory_not_heuristic:
  "name \<in> set [''ok'', ''err'', ''okAsync'', ''errAsync''] \<Longrightarrow>
   \<not> includes_str (toLowerCase name) ''result''"
  by (auto simp: toLowerCase_def toLowerCase_char_def)

lemma ExpressionStatement_visitor_id: "ExpressionStatement_visitor root nd expression s = s"
  by (simp add: ExpressionStatement_visitor_def split: node.split)

lemma emitted_Call:
  "node_at root nd = Some (CallExpression callee arguments) \<Longrightarrow>
   emitted root nd imps =
     (if isInReturnContext root nd \<or> isImmediatelyHandled root nd then []
      else reports (heuristic_check nd callee
             (factory_check nd callee \<lparr>neverthrowImports = imps, reports = []\<rparr>)))"
  by (simp add: emitted_def visit_def CallExpression_visitor_def)

lemma emitted_New:
  "node_at root nd = Some (NewExpression callee arguments) \<Longrightarrow>
   emitted root nd imps =
     (if isInReturnContext root nd \<or> isImmediatelyHandled root nd then []
      else if isResultConstructorCall (NewExpression callee arguments) then [result_diagnostic nd]
      else [])"
  by (simp add: emitted_def visit_def NewExpression_visitor_def report_def result_diagnostic_def
        fixed_message_def)

lemma emitted_shape:
  "emitted root nd imps = [] \<or> emitted root nd imps = [result_diagnostic nd]"
proof (cases "node_at root nd")
  case None
  then show ?thesis by (simp add: emitted_def visit_def)
next
  case (Some n)
  show ?thesis
  proof (cases n)
    case (CallExpression callee arguments)
    show ?thesis
    proof (cases callee)
      case (Identifier name)
      with Some CallExpression factory_not_heuristic [of name] show ?thesis
        by (auto simp: emitted_Call factory_check_def heuristic_check_def report_def
              result_diagnostic_def fixed_message_def isNeverthrowImport_def)
    qed (use Some CallExpression in
          \<open>auto simp: emitted_Call factory_check_def heuristic_check_def\<close>)
  next
    case (NewExpression callee arguments)
    with Some show ?thesis by (simp add: emitted_New)
  qed (use Some in \<open>auto simp: emitted_def visit_def ExpressionStatement_visitor_id
          ImportDeclaration_visitor_def Program_visitor_def\<close>)
qed

lemma emitted_anchor: "d \<in> set (emitted root nd imps) \<Longrightarrow> d = result_diagnostic nd"
  using emitted_shape [of root nd imps] by auto

lemma filter_emitted:
  "filter (\<lambda>d. anchor d = q) (emitted root nd imps) = (if q = nd then emitted root nd imps else [])"
  using emitted_shape [of root nd imps] by (auto simp: result_diagnostic_def)

lemma fold_visit_other:
  "q \<notin> set ps \<Longrightarrow>
   filter (\<lambda>d. anchor d = q) (reports (fold (visit root) ps s)) = filter (\<lambda>d. anchor d = q) (reports s)"
  by (induction ps arbitrary: s) (auto simp: reports_visit filter_emitted)

lemma fold_visit_at:
  "q \<notin> set xs \<Longrightarrow> q \<notin> set ys \<Longrightarrow>
   filter (\<lambda>d. anchor d = q) (reports (fold (visit root) (xs @ q # ys) s)) =
     filter (\<lambda>d. anchor d = q) (reports s) @ emitted root q (neverthrowImports (fold (visit root) xs s))"
  by (simp add: fold_visit_other reports_visit filter_emitted)

lemma split_at:
  "q \<in> set ps \<Longrightarrow> distinct ps \<Longrightarrow>
   \<exists>ys. ps = takeWhile (\<lambda>x. x \<noteq> q) ps @ q # ys \<and> q \<notin> set (takeWhile (\<lambda>x. x \<noteq> q) ps) \<and> q \<notin> set ys"
proof (induction ps)
  case Nil
  then show ?case by simp
next
  case (Cons a ps)
  then show ?case by (cases "a = q") auto
qed

lemma diagnostics_at_emitted:
  assumes "node_at root nd \<noteq> None"
  shows "filter (\<lambda>d. anchor d = nd) (lint_from imps root) =
         emitted root nd (imports_before_from imps root nd)"
proof -
  from assms have "nd \<in> set (preorder root)" by (simp add: preorder_mem)
  then obtain ys where ys: "preorder root = takeWhile (\<lambda>x. x \<noteq> nd) (preorder root) @ nd # ys"
      "nd \<notin> set (takeWhile (\<lambda>x. x \<noteq> nd) (preorder root))" "nd \<notin> set ys"
    using split_at [OF _ preorder_distinct] by blast
  have "filter (\<lambda>d. anchor d = nd) (lint_from imps root) =
        filter (\<lambda>d. anchor d = nd)
          (reports (fold (visit root) (takeWhile (\<lambda>x. x \<noteq> nd) (preorder root) @ nd # ys)
              \<lparr>neverthrowImports = imps, reports = []\<rparr>))"
    using ys(1) by (simp add: lint_from_def traverse_def)
  also have "\<dots> = emitted root nd (imports_before_from imps root nd)"
    by (subst fold_visit_at [OF ys(2,3)]) (simp add: imports_before_from_def)
  finally show ?thesis .
qed

lemma diagnostics_at_absent:
  assumes "node_at root nd = None"
  shows "filter (\<lambda>d. anchor d = nd) (lint_from imps root) = []"
proof -
  from assms have "nd \<notin> set (preorder root)" by (simp add: preorder_mem)
  then show ?thesis by (simp add: lint_from_def traverse_def fold_visit_other)
qed



section \<open>The two walks\<close>

lemma reaches_suffix: "(reaches_body b nd \<or> b = nd) = suffix b nd"
  by (induction nd) (auto simp: suffix_Cons)

lemma return_walk_climb:
  "return_walk root nd cur = (\<exists>a \<in> set (climb root cur). delegating root nd a)"
proof (induction cur)
  case Nil
  show ?case
    by (subst return_walk.simps, cases root)
       (simp_all add: delegating_def reaches_suffix Let_def)
next
  case (Cons i up)
  show ?case
  proof (cases "node_at root (i # up)")
    case None
    then show ?thesis by (subst return_walk.simps) simp
  next
    case (Some c)
    have unfold: "return_walk root nd (i # up) =
        (case c of
           ReturnStatement argument \<Rightarrow> True
         | ArrowFunctionExpression params body \<Rightarrow>
             suffix (length params # i # up) nd \<or> return_walk root nd up
         | FunctionDeclaration parts \<Rightarrow> False
         | FunctionExpression parts \<Rightarrow> False
         | BlockStatement body \<Rightarrow> False
         | _ \<Rightarrow> return_walk root nd up)"
      using Some
      by (subst return_walk.simps) (auto simp: Let_def reaches_suffix split: node.split)
    have "climb root (i # up) = (i # up) # (if is_boundary c then [] else climb root up)"
      using Some by simp
    then show ?thesis
      using Some Cons.IH by (cases c) (simp_all add: unfold delegating_def)
  qed
qed

lemma isInReturnContext_delegated: "isInReturnContext root nd = delegated root nd"
  by (cases nd) (simp_all add: isInReturnContext_def delegated_def direct_path_def return_walk_climb)

lemma climb_suffix: "a \<in> set (climb root cur) \<Longrightarrow> suffix a cur"
  by (induction cur) (auto simp: suffix_Cons split: option.splits if_splits)

lemma direct_path_shorter: "a \<in> set (direct_path root nd) \<Longrightarrow> length a < length nd"
  by (cases nd) (auto simp: direct_path_def dest!: climb_suffix suffix_length_le)

lemma delegating_child:
  assumes "a \<in> set (direct_path root p)"
  shows "delegating root (i # p) a = delegating root p a"
proof -
  from assms have "length a < length p" by (rule direct_path_shorter)
  then have "suffix (k # a) (i # p) = suffix (k # a) p" for k
    by (auto simp: suffix_Cons)
  then show ?thesis by (simp add: delegating_def split: option.split node.split)
qed

lemma delegated_child:
  assumes "node_at root p = Some c" and "\<not> is_boundary c" and "\<not> delegating root (i # p) p"
  shows "delegated root (i # p) = delegated root p"
proof -
  have "direct_path root (i # p) = p # direct_path root p"
    using assms(1,2) by (cases p) (simp_all add: direct_path_def)
  then show ?thesis
    using assms(3) by (auto simp: delegated_def delegating_child)
qed

lemma delegated_below_statement:
  "node_at root st = Some (ExpressionStatement e) \<Longrightarrow> delegated root (i # st) = delegated root st"
  using delegated_child [of root st "ExpressionStatement e" i] by (simp add: delegating_def)

lemma delegated_below_member:
  "node_at root p = Some (MemberExpression object property) \<Longrightarrow>
   delegated root (i # p) = delegated root p"
  using delegated_child [of root p "MemberExpression object property" i]
  by (simp add: delegating_def)

lemma delegated_below_call:
  "node_at root p = Some (CallExpression callee arguments) \<Longrightarrow>
   delegated root (i # p) = delegated root p"
  using delegated_child [of root p "CallExpression callee arguments" i]
  by (simp add: delegating_def)

lemma handled_walk_member:
  "node_at root (i # up) = Some (MemberExpression object (Identifier m)) \<Longrightarrow>
   handled_walk root (i # up) =
     (m \<in> set HANDLED_METHODS \<and> is_called root (i # up) \<or> handled_walk root up)"
  by (subst handled_walk.simps) (auto simp: HANDLED_METHODS_def)

lemma handled_walk_call:
  "node_at root cur = Some (CallExpression callee arguments) \<Longrightarrow>
   handled_walk root cur = isImmediatelyHandled root cur"
  by (subst handled_walk.simps) (simp add: isImmediatelyHandled_def)

lemma handled_walk_statement:
  "node_at root cur = Some (ExpressionStatement e) \<Longrightarrow> \<not> handled_walk root cur"
  by (subst handled_walk.simps) simp

lemma handled_chain_handled: "handled_chain root nd \<Longrightarrow> isImmediatelyHandled root nd"
proof (induction rule: handled_chain.induct)
  case (direct c object m callee arguments)
  then show ?case
    by (simp add: isImmediatelyHandled_def handled_walk_member is_called_def)
next
  case (step c object m callee arguments)
  then show ?case
    by (simp add: isImmediatelyHandled_def handled_walk_member handled_walk_call)
qed

lemma unhandled_chain_walks:
  "unhandled_chain root nd lst \<Longrightarrow>
   isImmediatelyHandled root nd = isImmediatelyHandled root lst \<and>
   delegated root nd = delegated root lst"
proof (induction rule: unhandled_chain.induct)
  case (single lst object m callee arguments)
  then show ?case
    by (simp add: isImmediatelyHandled_def handled_walk_member handled_walk_call
          delegated_below_member delegated_below_call)
next
  case (more nd lst object m callee arguments)
  then show ?case
    by (simp add: isImmediatelyHandled_def handled_walk_member handled_walk_call
          delegated_below_member delegated_below_call)
qed

lemma bare_statement_not_exempt:
  assumes "bare_statement root nd"
  shows "\<not> isInReturnContext root nd" and "\<not> isImmediatelyHandled root nd"
proof -
  from assms obtain i st e where nd: "nd = i # st"
    and st: "node_at root st = Some (ExpressionStatement e)" and free: "\<not> delegated root st"
    by (auto simp: bare_statement_def split: list.splits option.splits node.splits)
  show "\<not> isInReturnContext root nd"
    using free by (simp add: nd isInReturnContext_delegated delegated_below_statement [OF st])
  show "\<not> isImmediatelyHandled root nd"
    using handled_walk_statement [OF st] by (simp add: nd isImmediatelyHandled_def)
qed


section \<open>What entering a node reports\<close>

lemma emitted_other:
  assumes "node_at root nd = Some n"
    and "\<And>callee arguments. n \<noteq> CallExpression callee arguments"
    and "\<And>callee arguments. n \<noteq> NewExpression callee arguments"
  shows "emitted root nd imps = []"
  using assms
  by (cases n) (auto simp: emitted_def visit_def ExpressionStatement_visitor_id
        ImportDeclaration_visitor_def Program_visitor_def)

lemma emitted_exempt:
  assumes "isInReturnContext root nd \<or> isImmediatelyHandled root nd"
  shows "emitted root nd imps = []"
proof (cases "node_at root nd")
  case None
  then show ?thesis by (simp add: emitted_def visit_def)
next
  case (Some n)
  show ?thesis
  proof (cases n)
    case (CallExpression callee arguments)
    with Some assms show ?thesis by (simp add: emitted_Call)
  next
    case (NewExpression callee arguments)
    with Some assms show ?thesis by (simp add: emitted_New)
  qed (use Some in \<open>simp_all add: emitted_other\<close>)
qed

lemma emitted_factory:
  assumes "node_at root nd = Some (CallExpression (Identifier name) arguments)"
    and "name \<in> set factory_names"
    and "\<not> isInReturnContext root nd" and "\<not> isImmediatelyHandled root nd"
  shows "emitted root nd imps = (if name \<in> imps then [result_diagnostic nd] else [])"
proof -
  from assms(2) have fac: "name \<in> set [''ok'', ''err'', ''okAsync'', ''errAsync'']"
    by (simp add: factory_names_def)
  then have "\<not> includes_str (toLowerCase name) ''result''"
    by (rule factory_not_heuristic)
  with fac assms(1,3,4) show ?thesis
    by (simp add: emitted_Call factory_check_def heuristic_check_def report_def
          isNeverthrowImport_def result_diagnostic_def fixed_message_def)
qed

lemma emitted_heuristic:
  assumes "node_at root nd = Some (CallExpression (Identifier name) arguments)"
    and "heuristic_name name"
    and "\<not> isInReturnContext root nd" and "\<not> isImmediatelyHandled root nd"
  shows "emitted root nd imps = [result_diagnostic nd]"
proof -
  from assms(2) have inc: "includes_str (toLowerCase name) ''result''"
    and exc: "name \<notin> set exclusion_list"
    by (simp_all add: heuristic_name_def)
  from inc factory_not_heuristic [of name]
  have "name \<notin> set [''ok'', ''err'', ''okAsync'', ''errAsync'']"
    by blast
  with inc exc assms(1,3,4) show ?thesis
    by (simp add: emitted_Call factory_check_def heuristic_check_def report_def
          exclusion_list_def result_diagnostic_def fixed_message_def)
qed

lemma emitted_constructor:
  assumes "node_at root nd = Some (NewExpression (Identifier name) arguments)"
    and "name = ''Ok'' \<or> name = ''Err''"
    and "\<not> isInReturnContext root nd" and "\<not> isImmediatelyHandled root nd"
  shows "emitted root nd imps = [result_diagnostic nd]"
  using assms by (auto simp: emitted_New)

lemma emitted_excluded:
  assumes "node_at root nd = Some (CallExpression (Identifier name) arguments)"
    and "name \<in> set exclusion_list"
  shows "emitted root nd imps = []"
proof -
  from assms(2) have "name \<notin> set [''ok'', ''err'', ''okAsync'', ''errAsync'']"
    by (auto simp: exclusion_list_def)
  with assms show ?thesis
    by (auto simp: emitted_Call factory_check_def heuristic_check_def exclusion_list_def)
qed

lemma emitted_producing:
  assumes "node_at root nd = Some n" and "producing_call imps n"
    and "\<not> isInReturnContext root nd" and "\<not> isImmediatelyHandled root nd"
  shows "emitted root nd imps = [result_diagnostic nd]"
proof (cases n)
  case (CallExpression callee arguments)
  with assms(2) obtain name where callee: "callee = Identifier name"
    and cls: "name \<in> set factory_names \<and> name \<in> imps \<or> heuristic_name name"
    by (auto simp: producing_call_def split: node.splits)
  from cls show ?thesis
  proof
    assume "name \<in> set factory_names \<and> name \<in> imps"
    with assms(1,3,4) CallExpression callee show ?thesis
      by (simp add: emitted_factory)
  next
    assume "heuristic_name name"
    with assms(1,3,4) CallExpression callee show ?thesis
      by (simp add: emitted_heuristic)
  qed
next
  case (NewExpression callee arguments)
  with assms(2) obtain name where "callee = Identifier name" "name = ''Ok'' \<or> name = ''Err''"
    by (auto simp: producing_call_def split: node.splits)
  with assms(1,3,4) NewExpression show ?thesis
    by (simp add: emitted_constructor)
qed (use assms(2) in \<open>simp_all add: producing_call_def\<close>)

lemma diagnostics_at_eq:
  "node_at root nd = Some n \<Longrightarrow> diagnostics_at root nd = emitted root nd (imports_before root nd)"
  by (simp add: diagnostics_at_def lint_def imports_before_def diagnostics_at_emitted)

lemma exempt_not_reported:
  assumes "isInReturnContext root nd \<or> isImmediatelyHandled root nd"
  shows "filter (\<lambda>d. anchor d = nd) (lint_from imps root) = []"
proof (cases "node_at root nd")
  case None
  then show ?thesis by (rule diagnostics_at_absent)
next
  case (Some n)
  then show ?thesis
    by (simp add: diagnostics_at_emitted emitted_exempt [OF assms])
qed

lemma fold_visit_messages:
  "(\<forall>d \<in> set (reports s). d \<in> range result_diagnostic) \<Longrightarrow>
   \<forall>d \<in> set (reports (fold (visit root) ps s)). d \<in> range result_diagnostic"
proof (induction ps arbitrary: s)
  case Nil
  then show ?case by simp
next
  case (Cons p ps)
  have "\<forall>d \<in> set (reports (visit root p s)). d \<in> range result_diagnostic"
    using Cons.prems by (auto simp: reports_visit dest: emitted_anchor)
  then show ?case
    using Cons.IH [of "visit root p s"] by simp
qed

lemma lint_from_messages: "d \<in> set (lint_from imps root) \<Longrightarrow> message d = fixed_message"
proof -
  assume "d \<in> set (lint_from imps root)"
  with fold_visit_messages [of "\<lparr>neverthrowImports = imps, reports = []\<rparr>" root "preorder root"]
  have "d \<in> range result_diagnostic"
    by (simp add: lint_from_def traverse_def)
  then show ?thesis by (auto simp: result_diagnostic_def)
qed

lemma lint_from_Program: "lint_from imps (Program body) = lint (Program body)"
proof -
  have "visit (Program body) [] \<lparr>neverthrowImports = imps, reports = []\<rparr> =
        \<lparr>neverthrowImports = {}, reports = []\<rparr>" for imps
    by (simp add: visit_def Program_visitor_def clear_def)
  then show ?thesis
    by (simp add: lint_def lint_from_def traverse_def preorder_def preorder_from.simps [of "Program body"])
qed


lemma emitted_method_call:
  "node_at root nd = Some (CallExpression (MemberExpression object property) arguments) \<Longrightarrow>
   emitted root nd imps = []"
  by (simp add: emitted_Call factory_check_def heuristic_check_def)

lemma unhandled_chain_last:
  "unhandled_chain root nd lst \<Longrightarrow>
   \<exists>object m arguments.
     node_at root lst = Some (CallExpression (MemberExpression object (Identifier m)) arguments)"
  by (induction rule: unhandled_chain.induct) auto

lemma block_statement_position:
  "node_at root p = Some (BlockStatement body) \<Longrightarrow> \<not> delegated root (i # p)"
  by (cases p) (simp_all add: delegated_def direct_path_def delegating_def)

lemma program_statement_position: "\<not> delegated (Program body) [i]"
  by (simp add: delegated_def direct_path_def delegating_def)

lemma tracked_Program: "tracked (Program body) [] imps = {}"
  by (simp add: tracked_def visit_def Program_visitor_def clear_def)

section \<open>Evaluating the traversal\<close>

lemma kids_from_concat:
  "concat (map (\<lambda>i. preorder_from ((pre @ cs) ! i) (i # p)) [length pre..<length pre + length cs]) =
   kids_from cs (length pre) p"
proof (induction cs arbitrary: pre)
  case Nil
  then show ?case by simp
next
  case (Cons c cs)
  have upt: "[length pre..<Suc (length pre + length cs)] =
        length pre # [Suc (length pre)..<Suc (length pre + length cs)]"
    by (rule upt_conv_Cons) simp
  have nth: "(pre @ c # cs) ! length pre = c"
    by simp
  show ?case
    using Cons [of "pre @ [c]"] by (simp add: upt nth del: upt_Suc)
qed

lemma preorder_from_code [code]: "preorder_from n p = p # kids_from (children n) 0 p"
  using kids_from_concat [of "[]" "children n" p] by (subst preorder_from.simps) simp

section \<open>The claims\<close>

text \<open>
  C1. A call that is a bare statement and whose callee is a bare identifier equal to one of the
  four factory names \<^verbatim>\<open>ok\<close>, \<^verbatim>\<open>err\<close>, \<^verbatim>\<open>okAsync\<close>, \<^verbatim>\<open>errAsync\<close> yields
  exactly one diagnostic when the name is bound in the Import Registry, and no diagnostic when
  it is not. The registry is the tracker as it is when the traversal enters the call.
\<close>

theorem factory_statement_reported:
  assumes "node_at root nd = Some (CallExpression (Identifier name) arguments)"
    and "name \<in> set factory_names"
    and "bare_statement root nd"
  shows "diagnostics_at root nd =
           (if name \<in> imports_before root nd then [result_diagnostic nd] else [])"
  using assms bare_statement_not_exempt [OF assms(3)]
  by (simp add: diagnostics_at_eq emitted_factory)

theorem factory_statement_reported_witness:
  "diagnostics_at unit_statements [0, 1] = [result_diagnostic [0, 1]] \<and>
   diagnostics_at unit_statements [0, 2] = []"
proof -
  have at1: "node_at unit_statements [0, 1] =
      Some (CallExpression (Identifier ''ok'') [Literal (LNumber 1)])"
    by code_simp
  have at2: "node_at unit_statements [0, 2] =
      Some (CallExpression (Identifier ''okAsync'') [Literal (LNumber 1)])"
    by code_simp
  have names: "''ok'' \<in> set factory_names" "''okAsync'' \<in> set factory_names"
    by (simp_all add: factory_names_def)
  have bare: "bare_statement unit_statements [0, 1]" "bare_statement unit_statements [0, 2]"
    by code_simp+
  have bound: "''ok'' \<in> imports_before unit_statements [0, 1]"
    "''okAsync'' \<notin> imports_before unit_statements [0, 2]"
    by code_simp+
  show ?thesis
    using factory_statement_reported [OF at1 names(1) bare(1)]
      factory_statement_reported [OF at2 names(2) bare(2)] bound
    by simp
qed

text \<open>
  C2. A node that is followed, directly or through any number of transforming method steps, by
  a member access of a handling method (\<^verbatim>\<open>match\<close>, \<^verbatim>\<open>unwrapOr\<close>,
  \<^verbatim>\<open>_unsafeUnwrap\<close>) that is the callee of an enclosing call gets no diagnostic. This
  holds for every node, in particular for every producing call.
\<close>

theorem handled_chain_not_reported:
  assumes "handled_chain root nd"
  shows "diagnostics_at root nd = []"
  using exempt_not_reported [of root nd "{}"] handled_chain_handled [OF assms]
  by (simp add: diagnostics_at_def lint_def)

theorem handled_chain_not_reported_witness:
  "node_at unit_chains [0, 0, 0, 0, 0, 1] = Some (call_of ''ok'') \<and>
   ''ok'' \<in> imports_before unit_chains [0, 0, 0, 0, 0, 1] \<and>
   diagnostics_at unit_chains [0, 0, 0, 0, 0, 1] = []"
proof -
  have outer: "handled_chain unit_chains [0, 0, 0, 1]"
    by (rule handled_chain.direct [where m = "''unwrapOr''"]) (code_simp+)
  have "handled_chain unit_chains [0, 0, 0, 0, 0, 1]"
    by (rule handled_chain.step [OF _ _ _ outer, where m = "''map''"]) (code_simp+)
  then have "diagnostics_at unit_chains [0, 0, 0, 0, 0, 1] = []"
    by (rule handled_chain_not_reported)
  moreover have "node_at unit_chains [0, 0, 0, 0, 0, 1] = Some (call_of ''ok'')"
    by code_simp
  moreover have "''ok'' \<in> imports_before unit_chains [0, 0, 0, 0, 0, 1]"
    by code_simp
  ultimately show ?thesis by simp
qed

text \<open>
  C3, as stated, fails: a producing call whose method chain ends in a non-handling method gets
  no diagnostic when the chain is the operand of a return statement. In
  \<^verbatim>\<open>function f() { return ok(1).isOk(f); }\<close> the call \<^verbatim>\<open>ok(1)\<close> is a producing call
  (\<^verbatim>\<open>ok\<close> is bound in the registry), its chain ends in \<^verbatim>\<open>isOk\<close>, and the unit has no
  diagnostic anchored at it.
\<close>

theorem returned_chain_not_reported:
  "node_at unit_returned_chain [0, 0, 0, 0, 1, 1] = Some (call_of ''ok'') \<and>
   producing_call (imports_before unit_returned_chain [0, 0, 0, 0, 1, 1]) (call_of ''ok'') \<and>
   unhandled_chain unit_returned_chain [0, 0, 0, 0, 1, 1] [0, 0, 1, 1] \<and>
   diagnostics_at unit_returned_chain [0, 0, 0, 0, 1, 1] = []"
proof -
  have "unhandled_chain unit_returned_chain [0, 0, 0, 0, 1, 1] [0, 0, 1, 1]"
    by (rule unhandled_chain.single [where m = "''isOk''"]) (code_simp+)
  moreover have "node_at unit_returned_chain [0, 0, 0, 0, 1, 1] = Some (call_of ''ok'')"
    by code_simp
  moreover have
    "producing_call (imports_before unit_returned_chain [0, 0, 0, 0, 1, 1]) (call_of ''ok'')"
    by code_simp
  moreover have "diagnostics_at unit_returned_chain [0, 0, 0, 0, 1, 1] = []"
    by code_simp
  ultimately show ?thesis by simp
qed

text \<open>
  C3, as amended. A producing call that is not in a delegated context and whose method chain
  ends in a non-handling method, the call of that method not being immediately handled itself
  (as when the chain is a bare statement), gets exactly one diagnostic, anchored at the
  producing call; no diagnostic is anchored at the last call of the chain.
\<close>

theorem unhandled_chain_reported:
  assumes "unhandled_chain root nd lst"
    and "node_at root nd = Some n" and "producing_call (imports_before root nd) n"
    and "\<not> delegated root nd" and "\<not> isImmediatelyHandled root lst"
  shows "diagnostics_at root nd = [result_diagnostic nd] \<and> diagnostics_at root lst = []"
proof -
  from unhandled_chain_walks [OF assms(1)] assms(4,5)
  have "\<not> isInReturnContext root nd" and "\<not> isImmediatelyHandled root nd"
    by (simp_all add: isInReturnContext_delegated)
  with assms(2,3) have "diagnostics_at root nd = [result_diagnostic nd]"
    by (simp add: diagnostics_at_eq emitted_producing)
  moreover from unhandled_chain_last [OF assms(1)] have "diagnostics_at root lst = []"
    by (auto simp: diagnostics_at_eq emitted_method_call)
  ultimately show ?thesis by simp
qed

theorem unhandled_chain_reported_witness:
  "bare_statement unit_chains [0, 2] \<and>
   diagnostics_at unit_chains [0, 0, 0, 0, 0, 2] = [result_diagnostic [0, 0, 0, 0, 0, 2]] \<and>
   diagnostics_at unit_chains [0, 2] = []"
proof -
  have inner: "unhandled_chain unit_chains [0, 0, 0, 0, 0, 2] [0, 0, 0, 2]"
    by (rule unhandled_chain.single [where m = "''map''"]) (code_simp+)
  have chain: "unhandled_chain unit_chains [0, 0, 0, 0, 0, 2] [0, 2]"
    by (rule unhandled_chain.more [OF inner, where m = "''isOk''"]) (code_simp+)
  have at: "node_at unit_chains [0, 0, 0, 0, 0, 2] = Some (call_of ''ok'')"
    by code_simp
  have prod: "producing_call (imports_before unit_chains [0, 0, 0, 0, 0, 2]) (call_of ''ok'')"
    by code_simp
  have free: "\<not> delegated unit_chains [0, 0, 0, 0, 0, 2]"
    by code_simp
  have unhandled: "\<not> isImmediatelyHandled unit_chains [0, 2]"
    by code_simp
  have bare: "bare_statement unit_chains [0, 2]"
    by code_simp
  show ?thesis
    using unhandled_chain_reported [OF chain at prod free unhandled] bare by simp
qed

text \<open>
  C4. A node gets no diagnostic when, on its direct path (the ancestors reached without
  crossing a function declaration, function expression or block statement), there is a return
  statement, or an arrow function whose body is the node or contains it. Such a body is not a
  block, since no block lies between the node and the arrow function. This holds for every
  node, in particular for every producing call.
\<close>

theorem delegated_not_reported:
  assumes "a \<in> set (direct_path root nd)" and "delegating root nd a"
  shows "diagnostics_at root nd = []"
proof -
  from assms have "isInReturnContext root nd"
    by (auto simp: isInReturnContext_delegated delegated_def)
  then show ?thesis
    using exempt_not_reported [of root nd "{}"] by (simp add: diagnostics_at_def lint_def)
qed

theorem delegated_not_reported_witness:
  "node_at unit_delegated [0, 1, 1] =
     Some (ReturnStatement (Some (CallExpression (Identifier ''wrap'') [call_of ''ok'']))) \<and>
   node_at unit_delegated [1, 0, 0, 1, 1] = Some (call_of ''ok'') \<and>
   diagnostics_at unit_delegated [1, 0, 0, 1, 1] = [] \<and>
   node_at unit_delegated [1, 0, 2] =
     Some (ArrowFunctionExpression [Identifier ''x''] (method_call (call_of ''ok'') ''map'')) \<and>
   node_at unit_delegated [0, 0, 1, 1, 0, 2] = Some (call_of ''ok'') \<and>
   diagnostics_at unit_delegated [0, 0, 1, 1, 0, 2] = []"
proof -
  have p1: "[0, 1, 1] \<in> set (direct_path unit_delegated [1, 0, 0, 1, 1])"
    and d1: "delegating unit_delegated [1, 0, 0, 1, 1] [0, 1, 1]"
    by code_simp+
  have p2: "[1, 0, 2] \<in> set (direct_path unit_delegated [0, 0, 1, 1, 0, 2])"
    and d2: "delegating unit_delegated [0, 0, 1, 1, 0, 2] [1, 0, 2]"
    by code_simp+
  have nodes:
    "node_at unit_delegated [0, 1, 1] =
       Some (ReturnStatement (Some (CallExpression (Identifier ''wrap'') [call_of ''ok''])))"
    "node_at unit_delegated [1, 0, 0, 1, 1] = Some (call_of ''ok'')"
    "node_at unit_delegated [1, 0, 2] =
       Some (ArrowFunctionExpression [Identifier ''x''] (method_call (call_of ''ok'') ''map''))"
    "node_at unit_delegated [0, 0, 1, 1, 0, 2] = Some (call_of ''ok'')"
    by code_simp+
  show ?thesis
    using delegated_not_reported [OF p1 d1] delegated_not_reported [OF p2 d2] nodes by simp
qed

text \<open>
  C5, as stated, fails: a producing call in the body of a conditional, not on a direct
  return or arrow-body path, gets no diagnostic when it is immediately handled. In
  \<^verbatim>\<open>function f() { if (c) { ok(1); } if (c) { ok(1).unwrapOr(f); } return ok(1); }\<close> the
  second \<^verbatim>\<open>ok(1)\<close> is a producing call, its direct path ends at the block of the
  conditional, nothing on that path delegates it, and the unit has no diagnostic anchored at it.
\<close>

theorem handled_call_in_conditional_not_reported:
  "node_at unit_conditional [0, 0, 0, 0, 1, 1, 1, 1] = Some (call_of ''ok'') \<and>
   producing_call (imports_before unit_conditional [0, 0, 0, 0, 1, 1, 1, 1]) (call_of ''ok'') \<and>
   direct_path unit_conditional [0, 0, 0, 0, 1, 1, 1, 1] =
     [[0, 0, 0, 1, 1, 1, 1], [0, 0, 1, 1, 1, 1], [0, 1, 1, 1, 1], [1, 1, 1, 1]] \<and>
   \<not> delegated unit_conditional [0, 0, 0, 0, 1, 1, 1, 1] \<and>
   diagnostics_at unit_conditional [0, 0, 0, 0, 1, 1, 1, 1] = []"
  by (intro conjI) code_simp+

text \<open>
  C5, as amended. A producing call that is not immediately handled and that no ancestor on its
  direct path delegates gets exactly one diagnostic, whatever lies beyond the nearest enclosing
  function declaration, function expression or block statement: the direct path ends there, and
  the delegation walk answers false.
\<close>

theorem undelegated_call_reported:
  assumes "node_at root nd = Some n" and "producing_call (imports_before root nd) n"
    and "\<forall>a \<in> set (direct_path root nd). \<not> delegating root nd a"
    and "\<not> isImmediatelyHandled root nd"
  shows "diagnostics_at root nd = [result_diagnostic nd] \<and> \<not> isInReturnContext root nd"
proof -
  from assms(3) have "\<not> isInReturnContext root nd"
    by (simp add: isInReturnContext_delegated delegated_def)
  with assms(1,2,4) show ?thesis
    by (simp add: diagnostics_at_eq emitted_producing)
qed

theorem undelegated_call_reported_witness:
  "direct_path unit_conditional [0, 0, 1, 0, 1, 1] = [[0, 1, 0, 1, 1], [1, 0, 1, 1]] \<and>
   diagnostics_at unit_conditional [0, 0, 1, 0, 1, 1] = [result_diagnostic [0, 0, 1, 0, 1, 1]] \<and>
   diagnostics_at unit_conditional [0, 2, 1, 1] = []"
proof -
  have at: "node_at unit_conditional [0, 0, 1, 0, 1, 1] = Some (call_of ''ok'')"
    by code_simp
  have prod: "producing_call (imports_before unit_conditional [0, 0, 1, 0, 1, 1]) (call_of ''ok'')"
    by code_simp
  have path: "direct_path unit_conditional [0, 0, 1, 0, 1, 1] = [[0, 1, 0, 1, 1], [1, 0, 1, 1]]"
    by code_simp
  have free: "\<forall>a \<in> set (direct_path unit_conditional [0, 0, 1, 0, 1, 1]).
                \<not> delegating unit_conditional [0, 0, 1, 0, 1, 1] a"
    by code_simp
  have unhandled: "\<not> isImmediatelyHandled unit_conditional [0, 0, 1, 0, 1, 1]"
    by code_simp
  have ret: "diagnostics_at unit_conditional [0, 2, 1, 1] = []"
    by code_simp
  show ?thesis
    using undelegated_call_reported [OF at prod free unhandled] path ret by simp
qed

text \<open>
  C6. A constructor invocation of \<^verbatim>\<open>Ok\<close> or \<^verbatim>\<open>Err\<close> that is a bare statement yields
  exactly one diagnostic, whatever the tracker holds when the traversal starts and whatever the
  unit imports, and its message is the fixed text; every diagnostic of every unit carries that
  same text.
\<close>

theorem constructor_statement_reported:
  assumes "node_at root nd = Some (NewExpression (Identifier name) arguments)"
    and "name = ''Ok'' \<or> name = ''Err''"
    and "bare_statement root nd"
  shows "filter (\<lambda>d. anchor d = nd) (lint_from imps root) =
           [\<lparr>anchor = nd,
             message = ''Result must be handled with either match, unwrapOr, or _unsafeUnwrap''\<rparr>] \<and>
         (\<forall>d \<in> set (lint_from imps root).
            message d = ''Result must be handled with either match, unwrapOr, or _unsafeUnwrap'')"
proof -
  have "filter (\<lambda>d. anchor d = nd) (lint_from imps root) = [result_diagnostic nd]"
    using assms bare_statement_not_exempt [OF assms(3)]
    by (simp add: diagnostics_at_emitted emitted_constructor)
  then show ?thesis
    using lint_from_messages [of _ imps root]
    by (simp add: result_diagnostic_def fixed_message_def)
qed

theorem constructor_statement_reported_witness:
  "''Ok'' \<notin> imports_before unit_statements [0, 3] \<and>
   diagnostics_at unit_statements [0, 3] =
     [\<lparr>anchor = [0, 3],
       message = ''Result must be handled with either match, unwrapOr, or _unsafeUnwrap''\<rparr>] \<and>
   map anchor (lint unit_statements) = [[0, 1], [0, 3], [0, 4]] \<and>
   set (map message (lint unit_statements)) =
     {''Result must be handled with either match, unwrapOr, or _unsafeUnwrap''}"
proof -
  have at: "node_at unit_statements [0, 3] =
      Some (NewExpression (Identifier ''Ok'') [Literal (LNumber 1)])"
    by code_simp
  have bare: "bare_statement unit_statements [0, 3]"
    by code_simp
  have unbound: "''Ok'' \<notin> imports_before unit_statements [0, 3]"
    by code_simp
  have anchors: "map anchor (lint unit_statements) = [[0, 1], [0, 3], [0, 4]]"
    by code_simp
  then have "lint unit_statements \<noteq> []"
    by auto
  then have "set (map message (lint unit_statements)) =
      {''Result must be handled with either match, unwrapOr, or _unsafeUnwrap''}"
    using constructor_statement_reported [OF at _ bare, of "{}"]
    by (cases "lint unit_statements") (auto simp: lint_def)
  then show ?thesis
    using constructor_statement_reported [OF at _ bare, of "{}"] unbound anchors
    by (simp add: diagnostics_at_def lint_def)
qed

text \<open>
  C7. A call whose callee is an identifier gets exactly one diagnostic when the name contains
  \<^verbatim>\<open>result\<close> in any mix of cases, is not on the exclusion list, and the call is a bare
  statement, whatever the tracker holds; and it gets no diagnostic when the name is on the
  exclusion list.
\<close>

theorem heuristic_statement_reported:
  assumes "node_at root nd = Some (CallExpression (Identifier name) arguments)"
  shows "(includes_str (toLowerCase name) ''result'' \<and> name \<notin> set exclusion_list \<and>
          bare_statement root nd \<longrightarrow>
            filter (\<lambda>d. anchor d = nd) (lint_from imps root) = [result_diagnostic nd]) \<and>
         (name \<in> set exclusion_list \<longrightarrow>
            filter (\<lambda>d. anchor d = nd) (lint_from imps root) = [])"
proof (intro conjI impI)
  assume h: "includes_str (toLowerCase name) ''result'' \<and> name \<notin> set exclusion_list \<and>
             bare_statement root nd"
  then have "heuristic_name name" and bare: "bare_statement root nd"
    by (simp_all add: heuristic_name_def)
  with assms bare_statement_not_exempt [OF bare]
  show "filter (\<lambda>d. anchor d = nd) (lint_from imps root) = [result_diagnostic nd]"
    by (simp add: diagnostics_at_emitted emitted_heuristic)
next
  assume "name \<in> set exclusion_list"
  with assms show "filter (\<lambda>d. anchor d = nd) (lint_from imps root) = []"
    by (simp add: diagnostics_at_emitted emitted_excluded)
qed

theorem heuristic_statement_reported_witness:
  "imports_before unit_statements [0, 4] = {''ok'', ''err''} \<and>
   diagnostics_at unit_statements [0, 4] = [result_diagnostic [0, 4]] \<and>
   diagnostics_at unit_statements [0, 5] = []"
proof -
  have at4: "node_at unit_statements [0, 4] =
      Some (CallExpression (Identifier ''getResult'') [Literal (LNumber 1)])"
    and at5: "node_at unit_statements [0, 5] =
      Some (CallExpression (Identifier ''checkResult'') [Literal (LNumber 1)])"
    by code_simp+
  have name4: "includes_str (toLowerCase ''getResult'') ''result'' \<and>
               ''getResult'' \<notin> set exclusion_list \<and> bare_statement unit_statements [0, 4]"
    by code_simp
  have name5: "''checkResult'' \<in> set exclusion_list"
    by code_simp
  have regs: "imports_before unit_statements [0, 4] = {''ok'', ''err''}"
    by code_simp
  show ?thesis
    using heuristic_statement_reported [OF at4, of "{}"]
      heuristic_statement_reported [OF at5, of "{}"] name4 name5 regs
    by (simp add: diagnostics_at_def lint_def)
qed

text \<open>
  C8. Compilation units linted one after the other by one instance of the rule get the
  diagnostics each of them gets alone, whatever the tracker held before: entering the program
  node empties the tracker.
\<close>

theorem units_independent:
  assumes "\<forall>u \<in> set us. \<exists>body. u = Program body"
  shows "lint_units imps us = map lint us \<and> (\<forall>u \<in> set us. tracked u [] imps = {})"
proof
  show "lint_units imps us = map lint us"
    using assms
  proof (induction us arbitrary: imps)
    case Nil
    then show ?case by simp
  next
    case (Cons u us)
    then obtain body where "u = Program body" by auto
    then have "reports (traverse u \<lparr>neverthrowImports = imps, reports = []\<rparr>) = lint u"
      using lint_from_Program [of imps body] by (simp add: lint_from_def)
    with Cons show ?case by (simp add: Let_def)
  qed
  show "\<forall>u \<in> set us. tracked u [] imps = {}"
    using assms by (auto simp: tracked_Program)
qed

theorem units_independent_witness:
  "lint_units {''ok''} [unit_statements, unit_unimported] =
     [lint unit_statements, lint unit_unimported] \<and>
   lint unit_unimported = []"
proof -
  have "\<forall>u \<in> set [unit_statements, unit_unimported]. \<exists>body. u = Program body"
    by (simp add: unit_statements_def unit_unimported_def)
  then have "lint_units {''ok''} [unit_statements, unit_unimported] =
             map lint [unit_statements, unit_unimported]"
    using units_independent [of "[unit_statements, unit_unimported]" "{''ok''}"] by blast
  moreover have "lint unit_unimported = []"
    by code_simp
  ultimately show ?thesis by simp
qed

text \<open>
  C9. In one traversal of a unit at most one diagnostic is anchored at any node, whatever the
  tracker holds when the traversal starts.
\<close>

theorem at_most_one_per_node:
  "length (filter (\<lambda>d. anchor d = nd) (lint_from imps root)) \<le> 1"
proof (cases "node_at root nd")
  case None
  then show ?thesis by (simp add: diagnostics_at_absent)
next
  case (Some n)
  then show ?thesis
    using emitted_shape [of root nd "imports_before_from imps root nd"]
    by (auto simp: diagnostics_at_emitted)
qed

text \<open>
  C10. A call whose name passes the name heuristic gets no diagnostic when it is delegated, or
  when it is followed, directly or through transforming method steps, by an invoked handling
  method: the same two exemptions as for factory and constructor calls.
\<close>

theorem heuristic_call_exempt:
  assumes "node_at root nd = Some (CallExpression (Identifier name) arguments)"
    and "heuristic_name name"
    and "delegated root nd \<or> handled_chain root nd"
  shows "diagnostics_at root nd = []"
proof -
  from assms(3) have "isInReturnContext root nd \<or> isImmediatelyHandled root nd"
    by (auto simp: isInReturnContext_delegated dest: handled_chain_handled)
  then show ?thesis
    using exempt_not_reported [of root nd "{}"] by (simp add: diagnostics_at_def lint_def)
qed

theorem heuristic_call_exempt_witness:
  "diagnostics_at unit_chains [0, 0, 0, 3] = [] \<and> diagnostics_at unit_delegated [0, 1, 0, 3] = []"
proof -
  have at1: "node_at unit_chains [0, 0, 0, 3] =
      Some (CallExpression (Identifier ''getResult'') [Literal (LNumber 1)])"
    and at2: "node_at unit_delegated [0, 1, 0, 3] =
      Some (CallExpression (Identifier ''getResult'') [Literal (LNumber 1)])"
    by code_simp+
  have name: "heuristic_name ''getResult''"
    by code_simp
  have "handled_chain unit_chains [0, 0, 0, 3]"
    by (rule handled_chain.direct [where m = "''unwrapOr''"]) (code_simp+)
  then have ex1: "delegated unit_chains [0, 0, 0, 3] \<or> handled_chain unit_chains [0, 0, 0, 3]"
    by simp
  have "delegated unit_delegated [0, 1, 0, 3]"
    by code_simp
  then have ex2:
    "delegated unit_delegated [0, 1, 0, 3] \<or> handled_chain unit_delegated [0, 1, 0, 3]"
    by simp
  show ?thesis
    using heuristic_call_exempt [OF at1 name ex1] heuristic_call_exempt [OF at2 name ex2] by simp
qed

end
